theory Spec2Isabelle
  imports Main "HOL-Library.Word"
begin

unbundle bit_operations_syntax

section \<open>The ticket ledger of final.py\<close>

text \<open>
  The ledger engine of \<^verbatim>\<open>final.py\<close>: the classes \<^verbatim>\<open>TicketTransaction\<close>,
  \<^verbatim>\<open>Block\<close> and \<^verbatim>\<open>TicketBlockchain\<close>. Objects become records and every method
  takes the object's state and returns the new one. Three things are read from outside
  the program and are therefore arguments of the model:
  \<^item> the clock: each \<^verbatim>\<open>time.time()\<close> is an argument \<open>now\<close>. The code only stores and
    serialises these floats, so a float is its 64-bit pattern;
  \<^item> the identifier generator: the result of \<^verbatim>\<open>str(uuid.uuid4())\<close> is an argument
    \<open>ticket_id\<close> of \<open>issue_ticket\<close>;
  \<^item> the digest: \<^verbatim>\<open>hashlib.sha256(json.dumps(d, sort_keys=True).encode())\<close> is an
    argument \<open>H\<close>, a function from the dictionary \<open>d\<close> to a 256-bit digest.
    Its rendering by \<^verbatim>\<open>hexdigest()\<close> is modelled.
\<close>

subsection \<open>Data\<close>

type_synonym float64 = "64 word"

text \<open>The values that \<^verbatim>\<open>json.dumps\<close> is given.\<close>

datatype json =
    JNull
  | JInt int
  | JFloat float64
  | JStr string
  | JList "json list"
  | JDict "(string \<times> json) list"

type_synonym digest_fn = "json \<Rightarrow> 256 word"

text \<open>
  \<^verbatim>\<open>class TicketTransaction\<close>. The attributes \<^verbatim>\<open>owner\<close>, \<^verbatim>\<open>event\<close> and
  \<^verbatim>\<open>timestamp\<close> carry the prefix \<open>tx_\<close>, because the registry entry and the block
  have fields of the same names. \<^verbatim>\<open>event=None\<close> and \<^verbatim>\<open>new_owner=None\<close> are \<open>None\<close>.
\<close>

record TicketTransaction =
  tx_type :: string
  ticket_id :: string
  tx_owner :: string
  tx_event :: "string option"
  new_owner :: "string option"
  tx_timestamp :: float64

definition TicketTransaction_init ::
  "string \<Rightarrow> string \<Rightarrow> string \<Rightarrow> string option \<Rightarrow> string option \<Rightarrow> float64 \<Rightarrow> TicketTransaction"
where
  "TicketTransaction_init ty tid own ev newo now =
     \<lparr>tx_type = ty, ticket_id = tid, tx_owner = own, tx_event = ev, new_owner = newo,
      tx_timestamp = now\<rparr>"

definition json_opt :: "string option \<Rightarrow> json" where
  "json_opt v = (case v of None \<Rightarrow> JNull | Some s \<Rightarrow> JStr s)"

text \<open>\<^verbatim>\<open>to_dict\<close> returns \<^verbatim>\<open>self.__dict__\<close>: the attributes in the order \<^verbatim>\<open>__init__\<close> sets them.\<close>

definition to_dict :: "TicketTransaction \<Rightarrow> json" where
  "to_dict tx =
     JDict [(''tx_type'', JStr (tx_type tx)),
            (''ticket_id'', JStr (ticket_id tx)),
            (''owner'', JStr (tx_owner tx)),
            (''event'', json_opt (tx_event tx)),
            (''new_owner'', json_opt (new_owner tx)),
            (''timestamp'', JFloat (tx_timestamp tx))]"

text \<open>
  \<^verbatim>\<open>class Block\<close>. The attribute \<^verbatim>\<open>hash\<close> does not exist after \<^verbatim>\<open>__init__\<close>; it is
  assigned by \<^verbatim>\<open>create_genesis_block\<close> and \<^verbatim>\<open>mine\<close>. \<open>None\<close> is the missing attribute.
  Both calls of the constructor leave \<^verbatim>\<open>nonce\<close> at its default 0.
\<close>

record Block =
  index :: int
  transactions :: "TicketTransaction list"
  timestamp :: float64
  previous_hash :: string
  nonce :: int
  hash :: "string option"

definition Block_init :: "int \<Rightarrow> TicketTransaction list \<Rightarrow> string \<Rightarrow> float64 \<Rightarrow> Block" where
  "Block_init i txs prev now =
     \<lparr>index = i, transactions = txs, timestamp = now, previous_hash = prev, nonce = 0,
      hash = None\<rparr>"

subsection \<open>Hashing\<close>

text \<open>
  \<^verbatim>\<open>hexdigest()\<close>: the 32 bytes of the digest, most significant first, two lowercase
  hexadecimal characters each.
\<close>

definition hex_char :: "nat \<Rightarrow> char" where
  "hex_char n = ''0123456789abcdef'' ! (n mod 16)"

definition hexdigest :: "256 word \<Rightarrow> string" where
  "hexdigest w = map (\<lambda>i. hex_char (unat (drop_bit (4 * (63 - i)) w AND 15))) [0..<64]"

definition block_dict :: "Block \<Rightarrow> json" where
  "block_dict b =
     JDict [(''index'', JInt (index b)),
            (''transactions'', JList (map to_dict (transactions b))),
            (''timestamp'', JFloat (timestamp b)),
            (''previous_hash'', JStr (previous_hash b)),
            (''nonce'', JInt (nonce b))]"

definition compute_hash :: "digest_fn \<Rightarrow> Block \<Rightarrow> string" where
  "compute_hash H b = hexdigest (H (block_dict b))"

subsection \<open>Proof of work\<close>

definition difficulty :: int where
  "difficulty = 2"

text \<open>\<^verbatim>\<open>s * n\<close> on a string, and \<^verbatim>\<open>s.startswith(p)\<close>.\<close>

definition str_mul :: "string \<Rightarrow> int \<Rightarrow> string" where
  "str_mul s n = concat (replicate (nat n) s)"

definition startswith :: "string \<Rightarrow> string \<Rightarrow> bool" where
  "startswith s p \<longleftrightarrow> take (length p) s = p"

text \<open>
  The \<^verbatim>\<open>while\<close> loop of \<^verbatim>\<open>proof_of_work\<close>, on the block and \<^verbatim>\<open>computed_hash\<close>. Nothing
  bounds the search, so the loop is a partial function: \<open>None\<close> is a search that never
  ends.
\<close>

partial_function (option) pow_loop :: "digest_fn \<Rightarrow> Block \<Rightarrow> string \<Rightarrow> (Block \<times> string) option"
where
  "pow_loop H block computed_hash =
     (if \<not> startswith computed_hash (str_mul ''0'' difficulty)
      then pow_loop H (block\<lparr>nonce := nonce block + 1\<rparr>)
             (compute_hash H (block\<lparr>nonce := nonce block + 1\<rparr>))
      else Some (block, computed_hash))"

declare pow_loop.simps [code]

text \<open>The result is the block as the loop leaves it, and the returned string.\<close>

definition proof_of_work :: "digest_fn \<Rightarrow> Block \<Rightarrow> (Block \<times> string) option" where
  "proof_of_work H block =
     pow_loop H (block\<lparr>nonce := 0\<rparr>) (compute_hash H (block\<lparr>nonce := 0\<rparr>))"

subsection \<open>The ledger\<close>

text \<open>
  A registry entry is the dictionary \<^verbatim>\<open>{"owner": .., "status": .., "event": ..}\<close> that
  \<^verbatim>\<open>issue_ticket\<close> stores. No entry is made anywhere else and no key is ever deleted,
  so the three keys are always there and the entry is a record of them.
\<close>

record ticket =
  owner :: string
  status :: string
  event :: string

record TicketBlockchain =
  chain :: "Block list"
  pending_transactions :: "TicketTransaction list"
  tickets :: "string \<rightharpoonup> ticket"

datatype py_error = IndexError

text \<open>\<^verbatim>\<open>mine\<close> returns \<^verbatim>\<open>False\<close> or the new block.\<close>

datatype mine_ret = Ret_False | Ret_Block Block

definition create_genesis_block :: "digest_fn \<Rightarrow> float64 \<Rightarrow> TicketBlockchain \<Rightarrow> TicketBlockchain" where
  "create_genesis_block H now s =
     (let genesis_block = Block_init 0 [] ''0'' now;
          genesis_block = genesis_block\<lparr>hash := Some (compute_hash H genesis_block)\<rparr>
      in s\<lparr>chain := chain s @ [genesis_block]\<rparr>)"

definition TicketBlockchain_init :: "digest_fn \<Rightarrow> float64 \<Rightarrow> TicketBlockchain" where
  "TicketBlockchain_init H now =
     create_genesis_block H now \<lparr>chain = [], pending_transactions = [], tickets = Map.empty\<rparr>"

definition add_transaction :: "TicketTransaction \<Rightarrow> TicketBlockchain \<Rightarrow> TicketBlockchain" where
  "add_transaction transaction s =
     s\<lparr>pending_transactions := pending_transactions s @ [transaction]\<rparr>"

text \<open>
  \<^verbatim>\<open>mine\<close>. \<^verbatim>\<open>self.chain[-1]\<close> raises \<^verbatim>\<open>IndexError\<close> on an empty chain. The new block
  takes the list object of the pending pool and the pool is rebound to a new empty list,
  so later submissions do not reach the block. The outer \<open>option\<close> is \<open>None\<close> when the
  proof of work does not end.
\<close>

definition mine ::
  "digest_fn \<Rightarrow> float64 \<Rightarrow> TicketBlockchain \<Rightarrow> (py_error + mine_ret \<times> TicketBlockchain) option"
where
  "mine H now s =
     (if pending_transactions s = [] then Some (Inr (Ret_False, s))
      else if chain s = [] then Some (Inl IndexError)
      else
        (let new_block = Block_init (int (length (chain s))) (pending_transactions s)
                           (compute_hash H (last (chain s))) now
         in case proof_of_work H new_block of
              None \<Rightarrow> None
            | Some (new_block, computed_hash) \<Rightarrow>
                (let new_block = new_block\<lparr>hash := Some computed_hash\<rparr>
                 in Some (Inr (Ret_Block new_block,
                      s\<lparr>chain := chain s @ [new_block], pending_transactions := []\<rparr>)))))"

text \<open>\<^verbatim>\<open>issue_ticket\<close>; \<open>tid\<close> is what \<^verbatim>\<open>str(uuid.uuid4())\<close> returned.\<close>

definition issue_ticket ::
  "string \<Rightarrow> float64 \<Rightarrow> string \<Rightarrow> string \<Rightarrow> TicketBlockchain \<Rightarrow> string \<times> TicketBlockchain"
where
  "issue_ticket tid now own ev s =
     (let tx = TicketTransaction_init ''issue'' tid own (Some ev) None now;
          s = add_transaction tx s
      in (tid, s\<lparr>tickets := (tickets s)(tid \<mapsto> \<lparr>owner = own, status = ''valid'', event = ev\<rparr>)\<rparr>))"

text \<open>
  \<^verbatim>\<open>transfer_ticket\<close> and \<^verbatim>\<open>redeem_ticket\<close>. \<^verbatim>\<open>not ticket\<close> holds for \<^verbatim>\<open>None\<close> only: an
  entry has three keys and is never the empty dictionary. The clock is read only when the
  transaction is made.
\<close>

definition transfer_ticket ::
  "string \<Rightarrow> string \<Rightarrow> float64 \<Rightarrow> TicketBlockchain \<Rightarrow> bool \<times> TicketBlockchain"
where
  "transfer_ticket tid newo now s =
     (case tickets s tid of
        None \<Rightarrow> (False, s)
      | Some ticket \<Rightarrow>
          if status ticket \<noteq> ''valid'' then (False, s)
          else
            (let tx = TicketTransaction_init ''transfer'' tid (owner ticket) None (Some newo) now;
                 s = add_transaction tx s
             in (True, s\<lparr>tickets := (tickets s)(tid \<mapsto> ticket\<lparr>owner := newo\<rparr>)\<rparr>)))"

definition redeem_ticket :: "string \<Rightarrow> float64 \<Rightarrow> TicketBlockchain \<Rightarrow> bool \<times> TicketBlockchain" where
  "redeem_ticket tid now s =
     (case tickets s tid of
        None \<Rightarrow> (False, s)
      | Some ticket \<Rightarrow>
          if status ticket \<noteq> ''valid'' then (False, s)
          else
            (let tx = TicketTransaction_init ''redeem'' tid (owner ticket) None None now;
                 s = add_transaction tx s
             in (True, s\<lparr>tickets := (tickets s)(tid \<mapsto> ticket\<lparr>status := ''redeemed''\<rparr>)\<rparr>)))"

definition verify_ticket :: "string \<Rightarrow> TicketBlockchain \<Rightarrow> ticket option" where
  "verify_ticket tid s = (case tickets s tid of None \<Rightarrow> None | Some ticket \<Rightarrow> Some ticket)"

subsection \<open>Sequences of operations\<close>

text \<open>
  One call of a ledger method, with what it reads from outside: \<open>Issue tid now owner event\<close>,
  \<open>Transfer ticket_id new_owner now\<close>, \<open>Redeem ticket_id now\<close>, \<open>Mine now\<close>,
  \<open>Verify ticket_id\<close>.
\<close>

datatype op =
    Issue string float64 string string
  | Transfer string string float64
  | Redeem string float64
  | Mine float64
  | Verify string

fun step :: "digest_fn \<Rightarrow> op \<Rightarrow> TicketBlockchain \<Rightarrow> (py_error + TicketBlockchain) option" where
  "step H (Issue tid now own ev) s = Some (Inr (snd (issue_ticket tid now own ev s)))"
| "step H (Transfer tid newo now) s = Some (Inr (snd (transfer_ticket tid newo now s)))"
| "step H (Redeem tid now) s = Some (Inr (snd (redeem_ticket tid now s)))"
| "step H (Mine now) s =
     (case mine H now s of
        None \<Rightarrow> None
      | Some (Inl e) \<Rightarrow> Some (Inl e)
      | Some (Inr (r, s')) \<Rightarrow> Some (Inr s'))"
| "step H (Verify tid) s = Some (Inr s)"

text \<open>The calls in order; an exception or an endless search ends the run.\<close>

fun run :: "digest_fn \<Rightarrow> op list \<Rightarrow> TicketBlockchain \<Rightarrow> (py_error + TicketBlockchain) option" where
  "run H [] s = Some (Inr s)"
| "run H (c # cs) s =
     (case step H c s of
        None \<Rightarrow> None
      | Some (Inl e) \<Rightarrow> Some (Inl e)
      | Some (Inr s') \<Rightarrow> run H cs s')"

text \<open>The identifiers that the generator returned during a run.\<close>

fun issued_ids :: "op list \<Rightarrow> string list" where
  "issued_ids [] = []"
| "issued_ids (Issue tid now own ev # cs) = tid # issued_ids cs"
| "issued_ids (c # cs) = issued_ids cs"

subsection \<open>The invariant of the chain\<close>

text \<open>
  What \<^verbatim>\<open>__init__\<close> establishes and every method keeps: the chain is not empty, block \<open>i\<close>
  has index \<open>i\<close> and stores its own hash, and every later block stores the hash of the
  block before it and meets the difficulty.
\<close>

definition chain_inv :: "digest_fn \<Rightarrow> Block list \<Rightarrow> bool" where
  "chain_inv H c \<longleftrightarrow>
     c \<noteq> [] \<and>
     (\<forall>i < length c.
        index (c ! i) = int i \<and>
        hash (c ! i) = Some (compute_hash H (c ! i)) \<and>
        (0 < i \<longrightarrow>
           previous_hash (c ! i) = compute_hash H (c ! (i - 1)) \<and>
           startswith (compute_hash H (c ! i)) (str_mul ''0'' difficulty)))"

subsection \<open>A small digest for concrete runs\<close>

text \<open>
  A digest that looks at the nonce only: the search of \<open>proof_of_work\<close> passes the nonces
  0, 1 and 2 and stops at 3. It stands in for SHA-256 where a theorem is applied to a
  concrete ledger.
\<close>

definition toy_digest :: digest_fn where
  "toy_digest d =
     (case d of
        JDict kvs \<Rightarrow>
          (case map_of kvs ''nonce'' of
             Some (JInt n) \<Rightarrow> if n < 3 then 2 ^ 255 + 17 else 255
           | _ \<Rightarrow> 0)
      | _ \<Rightarrow> 0)"

text \<open>The calls of \<^verbatim>\<open>demo_flow()\<close>, with ticket identifier \<open>T1\<close> and clock readings 1 to 6.\<close>

definition demo_flow :: "op list" where
  "demo_flow =
     [Issue ''T1'' 1 ''Alice'' ''Rock Concert'', Mine 2, Transfer ''T1'' ''Bob'' 3, Mine 4,
      Redeem ''T1'' 5, Mine 6, Verify ''T1'']"

definition demo_ledger :: TicketBlockchain where
  "demo_ledger = TicketBlockchain_init toy_digest 0"

definition demo_issued :: TicketBlockchain where
  "demo_issued = snd (issue_ticket ''T1'' 1 ''Alice'' ''Rock Concert'' demo_ledger)"

definition demo_redeemed :: TicketBlockchain where
  "demo_redeemed = snd (redeem_ticket ''T1'' 2 demo_issued)"

section \<open>Properties\<close>

subsection \<open>The search of the proof of work\<close>

text \<open>
  If the loop returns, it returns the block with the least nonce from the starting one on
  whose hash meets the difficulty, and that hash.
\<close>

lemma pow_loop_sound:
  assumes "pow_loop H b h = Some r" and "h = compute_hash H b"
  shows "snd r = compute_hash H (fst r) \<and>
         startswith (snd r) (str_mul ''0'' difficulty) \<and>
         fst r = b\<lparr>nonce := nonce (fst r)\<rparr> \<and>
         nonce b \<le> nonce (fst r) \<and>
         (\<forall>m. nonce b \<le> m \<and> m < nonce (fst r) \<longrightarrow>
              \<not> startswith (compute_hash H (b\<lparr>nonce := m\<rparr>)) (str_mul ''0'' difficulty))"
  using assms
proof (induction H b h r rule: pow_loop.raw_induct[rotated 1, consumes 1, case_names unfold])
  case (unfold loop H b h r)
  show ?case
  proof (cases "startswith h (str_mul ''0'' difficulty)")
    case True
    with unfold(2) have "r = (b, h)" by simp
    with True unfold(3) show ?thesis by auto
  next
    case False
    let ?b1 = "b\<lparr>nonce := nonce b + 1\<rparr>"
    from False unfold(2) have call: "loop H ?b1 (compute_hash H ?b1) = Some r" by simp
    note ih = unfold(1)[OF call refl]
    have fst_r: "fst r = b\<lparr>nonce := nonce (fst r)\<rparr>"
      using ih by (metis Block.update_convs(5) Block.surjective)
    have le: "nonce b \<le> nonce (fst r)" using ih by simp
    have least: "\<not> startswith (compute_hash H (b\<lparr>nonce := m\<rparr>)) (str_mul ''0'' difficulty)"
      if "nonce b \<le> m" "m < nonce (fst r)" for m
    proof (cases "m = nonce b")
      case True
      then show ?thesis using False unfold(3) by simp
    next
      case False
      with that have "nonce ?b1 \<le> m \<and> m < nonce (fst r)" by simp
      with ih have "\<not> startswith (compute_hash H (?b1\<lparr>nonce := m\<rparr>)) (str_mul ''0'' difficulty)"
        by blast
      then show ?thesis by simp
    qed
    from ih fst_r le least show ?thesis by blast
  qed
qed

text \<open>If some nonce from the starting one on meets the difficulty, the loop returns.\<close>

lemma pow_loop_complete:
  assumes "startswith (compute_hash H (b\<lparr>nonce := nonce b + int k\<rparr>)) (str_mul ''0'' difficulty)"
  shows "\<exists>r. pow_loop H b (compute_hash H b) = Some r"
  using assms
proof (induction k arbitrary: b)
  case 0
  then show ?case by (subst pow_loop.simps) simp
next
  case (Suc k)
  let ?b1 = "b\<lparr>nonce := nonce b + 1\<rparr>"
  have "?b1\<lparr>nonce := nonce ?b1 + int k\<rparr> = b\<lparr>nonce := nonce b + int (Suc k)\<rparr>"
    by (simp add: add.assoc)
  with Suc.prems have "startswith (compute_hash H (?b1\<lparr>nonce := nonce ?b1 + int k\<rparr>)) (str_mul ''0'' difficulty)"
    by (simp add: add.assoc)
  from Suc.IH[OF this] obtain r where r: "pow_loop H ?b1 (compute_hash H ?b1) = Some r" ..
  show ?case
  proof (cases "startswith (compute_hash H b) (str_mul ''0'' difficulty)")
    case True
    then show ?thesis by (subst pow_loop.simps) simp
  next
    case False
    then show ?thesis using r by (subst pow_loop.simps) simp
  qed
qed


lemma proof_of_work_sound:
  assumes "proof_of_work H b = Some (b', h)"
  shows "h = compute_hash H b' \<and>
         startswith h (str_mul ''0'' difficulty) \<and>
         b' = b\<lparr>nonce := nonce b'\<rparr> \<and> 0 \<le> nonce b' \<and>
         (\<forall>m. 0 \<le> m \<and> m < nonce b' \<longrightarrow>
              \<not> startswith (compute_hash H (b\<lparr>nonce := m\<rparr>)) (str_mul ''0'' difficulty))"
proof -
  from assms have "pow_loop H (b\<lparr>nonce := 0\<rparr>) (compute_hash H (b\<lparr>nonce := 0\<rparr>)) = Some (b', h)"
    by (simp add: proof_of_work_def)
  from pow_loop_sound[OF this refl] show ?thesis by (auto simp del: Block.update_convs)
qed

lemma proof_of_work_returns:
  assumes "0 \<le> n"
    and "startswith (compute_hash H (b\<lparr>nonce := n\<rparr>)) (str_mul ''0'' difficulty)"
  shows "\<exists>r. proof_of_work H b = Some r"
proof -
  let ?b0 = "b\<lparr>nonce := 0\<rparr>"
  from assms have "startswith (compute_hash H (?b0\<lparr>nonce := nonce ?b0 + int (nat n)\<rparr>))
      (str_mul ''0'' difficulty)"
    by simp
  from pow_loop_complete[OF this] show ?thesis
    by (simp add: proof_of_work_def)
qed

subsection \<open>Hexadecimal digests\<close>

lemma hex_char_in: "hex_char n \<in> set ''0123456789abcdef''"
proof -
  have "n mod 16 < length ''0123456789abcdef''" by simp
  then show ?thesis unfolding hex_char_def by (rule nth_mem)
qed

lemma length_hexdigest: "length (hexdigest w) = 64"
  by (simp add: hexdigest_def)

lemma set_hexdigest: "set (hexdigest w) \<subseteq> set ''0123456789abcdef''"
  unfolding hexdigest_def using hex_char_in by auto

lemma zeros_difficulty: "str_mul ''0'' difficulty = ''00''"
  by (simp add: str_mul_def difficulty_def numeral_2_eq_2)

lemma take2_hexdigest:
  "take 2 (hexdigest w) =
     [hex_char (unat (drop_bit 252 w AND 15)), hex_char (unat (drop_bit 248 w AND 15))]"
proof -
  have "take 2 [0..<64] = [0, Suc 0]" by (simp add: upt_rec numeral_2_eq_2)
  then show ?thesis by (simp add: hexdigest_def take_map)
qed

lemma startswith_hexdigest:
  "startswith (hexdigest w) (str_mul ''0'' difficulty) \<longleftrightarrow>
     hex_char (unat (drop_bit 252 w AND 15)) = CHR ''0'' \<and>
     hex_char (unat (drop_bit 248 w AND 15)) = CHR ''0''"
proof -
  have "startswith (hexdigest w) (str_mul ''0'' difficulty) \<longleftrightarrow> take 2 (hexdigest w) = ''00''"
    by (simp add: zeros_difficulty startswith_def numeral_2_eq_2)
  then show ?thesis by (simp add: take2_hexdigest)
qed

lemma toy_compute_hash_prefix:
  "startswith (compute_hash toy_digest b) (str_mul ''0'' difficulty) \<longleftrightarrow> 3 \<le> nonce b"
  by (simp add: startswith_hexdigest compute_hash_def block_dict_def
      toy_digest_def hex_char_def drop_bit_eq_div)

text \<open>The equations that evaluate a concrete run under the small digest.\<close>

lemmas toy_eval = toy_compute_hash_prefix mine_def proof_of_work_def pow_loop.simps
  Block_init_def TicketBlockchain_init_def create_genesis_block_def
  issue_ticket_def transfer_ticket_def redeem_ticket_def add_transaction_def
  TicketTransaction_init_def verify_ticket_def Let_def demo_ledger_def demo_issued_def demo_redeemed_def

subsection \<open>What mine does to the ledger\<close>

lemma mine_block:
  assumes "mine H now s = Some (Inr (r, s'))" and "pending_transactions s \<noteq> []"
  shows "\<exists>b. r = Ret_Block b \<and>
           s' = s\<lparr>chain := chain s @ [b], pending_transactions := []\<rparr> \<and>
           chain s \<noteq> [] \<and>
           index b = int (length (chain s)) \<and>
           transactions b = pending_transactions s \<and>
           timestamp b = now \<and>
           previous_hash b = compute_hash H (last (chain s)) \<and>
           hash b = Some (compute_hash H b) \<and>
           startswith (compute_hash H b) (str_mul ''0'' difficulty)"
proof -
  let ?nb = "Block_init (int (length (chain s))) (pending_transactions s)
               (compute_hash H (last (chain s))) now"
  from assms have ne: "chain s \<noteq> []"
    by (auto simp: mine_def split: if_splits)
  from assms ne obtain b' h where pow: "proof_of_work H ?nb = Some (b', h)"
    and r: "r = Ret_Block (b'\<lparr>hash := Some h\<rparr>)"
    and s': "s' = s\<lparr>chain := chain s @ [b'\<lparr>hash := Some h\<rparr>], pending_transactions := []\<rparr>"
    by (auto simp: mine_def Let_def split: option.splits)
  note snd = proof_of_work_sound [OF pow]
  from snd have b': "b' = ?nb\<lparr>nonce := nonce b'\<rparr>" by blast
  have fields: "index b' = int (length (chain s))" "transactions b' = pending_transactions s"
    "timestamp b' = now" "previous_hash b' = compute_hash H (last (chain s))"
    by (subst b', simp add: Block_init_def)+
  have same: "compute_hash H (b'\<lparr>hash := Some h\<rparr>) = compute_hash H b'"
    by (simp add: compute_hash_def block_dict_def)
  from snd have h: "h = compute_hash H b'"
    and good: "startswith h (str_mul ''0'' difficulty)" by blast+
  show ?thesis
    using r s' ne fields same h good by simp
qed

lemma mine_tickets:
  assumes "mine H now s = Some (Inr (r, s'))"
  shows "tickets s' = tickets s"
proof (cases "pending_transactions s = []")
  case True
  with assms show ?thesis by (simp add: mine_def)
next
  case False
  from mine_block [OF assms False] show ?thesis by auto
qed

text \<open>If no nonce meets the difficulty, the search does not end and \<open>mine\<close> does not return.\<close>

lemma mine_endless_search:
  assumes "pending_transactions s \<noteq> []" and "chain s \<noteq> []"
    and "\<forall>n\<ge>0. \<not> startswith
           (compute_hash H
              ((Block_init (int (length (chain s))) (pending_transactions s)
                  (compute_hash H (last (chain s))) now)\<lparr>nonce := n\<rparr>))
           (str_mul ''0'' difficulty)"
  shows "mine H now s = None"
proof -
  let ?nb = "Block_init (int (length (chain s))) (pending_transactions s)
               (compute_hash H (last (chain s))) now"
  have "proof_of_work H ?nb = None"
  proof (rule ccontr)
    assume "proof_of_work H ?nb \<noteq> None"
    then obtain b' h where pow: "proof_of_work H ?nb = Some (b', h)" by auto
    from proof_of_work_sound [OF pow]
    have eq: "b' = ?nb\<lparr>nonce := nonce b'\<rparr>" and pos: "0 \<le> nonce b'"
      and good: "startswith h (str_mul ''0'' difficulty)" and h: "h = compute_hash H b'"
      by blast+
    from good h have "startswith (compute_hash H b') (str_mul ''0'' difficulty)" by simp
    then have "startswith (compute_hash H (?nb\<lparr>nonce := nonce b'\<rparr>)) (str_mul ''0'' difficulty)"
      using eq by simp
    with assms(3) pos show False by blast
  qed
  with assms(1,2) show ?thesis by (simp add: mine_def Let_def)
qed

subsection \<open>The invariant holds on every chain the ledger builds\<close>

lemma chain_inv_genesis: "chain_inv H (chain (TicketBlockchain_init H now))"
  by (simp add: chain_inv_def TicketBlockchain_init_def create_genesis_block_def Block_init_def
      Let_def compute_hash_def block_dict_def)

lemma chain_inv_append:
  assumes "chain_inv H c"
    and "index b = int (length c)"
    and "hash b = Some (compute_hash H b)"
    and "previous_hash b = compute_hash H (last c)"
    and "startswith (compute_hash H b) (str_mul ''0'' difficulty)"
  shows "chain_inv H (c @ [b])"
proof -
  from assms(1) have ne: "c \<noteq> []" by (simp add: chain_inv_def)
  then have last: "last c = c ! (length c - 1)" by (rule last_conv_nth)
  from ne have pos: "0 < length c" by simp
  show ?thesis
    unfolding chain_inv_def
  proof (intro conjI allI impI)
    show "c @ [b] \<noteq> []" by simp
  next
    fix i assume "i < length (c @ [b])"
    then consider "i < length c" | "i = length c" by fastforce
    then show "index ((c @ [b]) ! i) = int i"
      using assms(1,2) by cases (simp_all add: chain_inv_def nth_append)
  next
    fix i assume "i < length (c @ [b])"
    then consider "i < length c" | "i = length c" by fastforce
    then show "hash ((c @ [b]) ! i) = Some (compute_hash H ((c @ [b]) ! i))"
      using assms(1,3) by cases (simp_all add: chain_inv_def nth_append)
  next
    fix i assume "i < length (c @ [b])" and "0 < i"
    then consider "i < length c" | "i = length c" by fastforce
    then show "previous_hash ((c @ [b]) ! i) = compute_hash H ((c @ [b]) ! (i - 1))"
      using assms(1,4) \<open>0 < i\<close> last pos by cases (auto simp: chain_inv_def nth_append)
  next
    fix i assume "i < length (c @ [b])" and "0 < i"
    then consider "i < length c" | "i = length c" by fastforce
    then show "startswith (compute_hash H ((c @ [b]) ! i)) (str_mul ''0'' difficulty)"
      using assms(1,5) \<open>0 < i\<close> by cases (simp_all add: chain_inv_def nth_append)
  qed
qed

lemma step_chain:
  assumes "step H c s = Some (Inr s')"
  shows "chain s' = chain s \<or>
         (\<exists>now r. c = Mine now \<and> mine H now s = Some (Inr (r, s')) \<and> pending_transactions s \<noteq> [])"
proof (cases c)
  case (Issue tid now own ev)
  with assms show ?thesis by (auto simp: issue_ticket_def add_transaction_def Let_def)
next
  case (Transfer tid newo now)
  with assms show ?thesis
    by (auto simp: transfer_ticket_def add_transaction_def Let_def split: option.splits)
next
  case (Redeem tid now)
  with assms show ?thesis
    by (auto simp: redeem_ticket_def add_transaction_def Let_def split: option.splits)
next
  case (Mine now)
  with assms obtain r where m: "mine H now s = Some (Inr (r, s'))"
    by (auto split: option.splits sum.splits)
  show ?thesis
  proof (cases "pending_transactions s = []")
    case True
    with m show ?thesis by (simp add: mine_def)
  next
    case False
    with m Mine show ?thesis by blast
  qed
next
  case (Verify tid)
  with assms show ?thesis by simp
qed

lemma step_chain_inv:
  assumes "chain_inv H (chain s)" and "step H c s = Some (Inr s')"
  shows "chain_inv H (chain s')"
  using step_chain [OF assms(2)]
proof
  assume "chain s' = chain s"
  with assms(1) show ?thesis by simp
next
  assume "\<exists>now r. c = Mine now \<and> mine H now s = Some (Inr (r, s')) \<and> pending_transactions s \<noteq> []"
  then obtain now r where m: "mine H now s = Some (Inr (r, s'))"
    and ne: "pending_transactions s \<noteq> []" by blast
  from mine_block [OF m ne] obtain b where
    "chain s' = chain s @ [b]" "index b = int (length (chain s))"
    "hash b = Some (compute_hash H b)" "previous_hash b = compute_hash H (last (chain s))"
    "startswith (compute_hash H b) (str_mul ''0'' difficulty)"
    by auto
  with chain_inv_append [OF assms(1), of b] show ?thesis by simp
qed

lemma run_chain_inv:
  assumes "chain_inv H (chain s)" and "run H cs s = Some (Inr s')"
  shows "chain_inv H (chain s')"
  using assms
proof (induction cs arbitrary: s)
  case Nil
  then show ?case by simp
next
  case (Cons c cs)
  from Cons.prems(2) obtain s1 where st: "step H c s = Some (Inr s1)"
    and rest: "run H cs s1 = Some (Inr s')"
    by (auto split: option.splits sum.splits)
  from step_chain_inv [OF Cons.prems(1) st] have "chain_inv H (chain s1)" .
  from Cons.IH [OF this rest] show ?case .
qed

lemma reachable_chain_inv:
  assumes "run H cs (TicketBlockchain_init H t0) = Some (Inr s)"
  shows "chain_inv H (chain s)"
  using chain_inv_genesis assms by (rule run_chain_inv)

lemma reachable_chain_nonempty:
  assumes "run H cs (TicketBlockchain_init H t0) = Some (Inr s)"
  shows "chain s \<noteq> []"
  using reachable_chain_inv [OF assms] by (simp add: chain_inv_def)

subsection \<open>What one call does to a registry entry\<close>

text \<open>
  An entry that is there stays there, with its event. Its status stays or goes from
  \<open>valid\<close> to \<open>redeemed\<close>, and a redeemed entry does not change at all. The one way to
  replace an entry is \<open>issue_ticket\<close> with the same identifier, which the generator of
  identifiers is relied on never to produce.
\<close>

lemma step_registry_entry:
  assumes "step H c s = Some (Inr s')" and "tickets s t = Some e"
    and "t \<notin> set (issued_ids [c])"
  shows "\<exists>e'. tickets s' t = Some e' \<and> event e' = event e \<and>
           (status e' = status e \<or> status e = ''valid'' \<and> status e' = ''redeemed'') \<and>
           (status e = ''redeemed'' \<longrightarrow> e' = e)"
proof (cases c)
  case (Issue tid now own ev)
  with assms show ?thesis by (auto simp: issue_ticket_def add_transaction_def Let_def)
next
  case (Transfer tid newo now)
  with assms show ?thesis
    by (auto simp: transfer_ticket_def add_transaction_def Let_def split: option.splits)
next
  case (Redeem tid now)
  with assms show ?thesis
    by (auto simp: redeem_ticket_def add_transaction_def Let_def split: option.splits)
next
  case (Mine now)
  with assms obtain r where "mine H now s = Some (Inr (r, s'))"
    by (auto split: option.splits sum.splits)
  from mine_tickets [OF this] assms(2) show ?thesis by simp
next
  case (Verify tid)
  with assms show ?thesis by simp
qed

lemma issue_ticket_same_id:
  "tickets (snd (issue_ticket t now own ev s)) t = Some \<lparr>owner = own, status = ''valid'', event = ev\<rparr>"
  by (simp add: issue_ticket_def add_transaction_def Let_def)

section \<open>The registry operations\<close>

text \<open>
  Claim C6. For every ledger state and all strings \<open>owner\<close> and \<open>event\<close>, \<open>issue_ticket\<close>
  returns the ticket identifier it was given by the generator, and \<open>verify_ticket\<close> on
  that identifier, called right after and before any mining, returns the registry entry
  with status \<open>valid\<close>, the issued owner and the issued event.
\<close>

theorem issue_then_verify:
  "fst (issue_ticket tid now own ev s) = tid \<and>
   verify_ticket tid (snd (issue_ticket tid now own ev s)) =
     Some \<lparr>owner = own, status = ''valid'', event = ev\<rparr>"
  by (simp add: issue_ticket_def verify_ticket_def add_transaction_def Let_def)

text \<open>
  Claim C3. If the ticket identifier is absent from the registry, or its entry's status is
  not \<open>valid\<close>, then \<open>transfer_ticket\<close> and \<open>redeem_ticket\<close> each return \<open>False\<close> and
  return the ledger as it was: registry, pending pool and chain are unchanged.
\<close>

theorem rejected_transfer_redeem:
  assumes "case tickets s tid of None \<Rightarrow> True | Some t \<Rightarrow> status t \<noteq> ''valid''"
  shows "transfer_ticket tid newo now s = (False, s) \<and> redeem_ticket tid now' s = (False, s)"
  using assms by (simp add: transfer_ticket_def redeem_ticket_def split: option.splits)

text \<open>An absent identifier on the new ledger, and a redeemed ticket.\<close>

theorem rejected_transfer_redeem_witness:
  "(case tickets demo_ledger ''T9'' of None \<Rightarrow> True | Some t \<Rightarrow> status t \<noteq> ''valid'') \<and>
   (case tickets demo_redeemed ''T1'' of None \<Rightarrow> True | Some t \<Rightarrow> status t \<noteq> ''valid'') \<and>
   transfer_ticket ''T9'' ''Bob'' 3 demo_ledger = (False, demo_ledger) \<and>
   redeem_ticket ''T9'' 4 demo_ledger = (False, demo_ledger) \<and>
   transfer_ticket ''T1'' ''Bob'' 3 demo_redeemed = (False, demo_redeemed) \<and>
   redeem_ticket ''T1'' 4 demo_redeemed = (False, demo_redeemed)"
proof -
  have absent: "case tickets demo_ledger ''T9'' of None \<Rightarrow> True | Some t \<Rightarrow> status t \<noteq> ''valid''"
    by (simp add: toy_eval)
  have spent: "case tickets demo_redeemed ''T1'' of None \<Rightarrow> True | Some t \<Rightarrow> status t \<noteq> ''valid''"
    by (simp add: toy_eval)
  from absent spent
    rejected_transfer_redeem [OF absent, of "''Bob''" 3 4]
    rejected_transfer_redeem [OF spent, of "''Bob''" 3 4]
  show ?thesis by blast
qed

text \<open>
  Claim C8. For a ticket whose registry status is \<open>valid\<close> and every new owner,
  \<open>transfer_ticket\<close> returns \<open>True\<close>, appends exactly one record to the pending pool, of
  type \<open>transfer\<close>, whose owner field is the owner before the call and whose new-owner
  field is the given one, and replaces the owner of the registry entry, leaving its
  status and event as they were. The other entries and the chain are unchanged.
\<close>

theorem transfer_effect:
  assumes "tickets s tid = Some t" and "status t = ''valid''"
  shows "\<exists>s'. transfer_ticket tid newo now s = (True, s') \<and>
           pending_transactions s' =
             pending_transactions s @
               [\<lparr>tx_type = ''transfer'', ticket_id = tid, tx_owner = owner t, tx_event = None,
                 new_owner = Some newo, tx_timestamp = now\<rparr>] \<and>
           tickets s' tid = Some \<lparr>owner = newo, status = status t, event = event t\<rparr> \<and>
           (\<forall>k. k \<noteq> tid \<longrightarrow> tickets s' k = tickets s k) \<and>
           chain s' = chain s"
  using assms
  by (simp add: transfer_ticket_def add_transaction_def TicketTransaction_init_def Let_def)

theorem transfer_effect_witness:
  "tickets demo_issued ''T1'' =
     Some \<lparr>owner = ''Alice'', status = ''valid'', event = ''Rock Concert''\<rparr> \<and>
   (\<exists>s'. transfer_ticket ''T1'' ''Bob'' 3 demo_issued = (True, s') \<and>
      pending_transactions s' =
        pending_transactions demo_issued @
          [\<lparr>tx_type = ''transfer'', ticket_id = ''T1'', tx_owner = ''Alice'', tx_event = None,
            new_owner = Some ''Bob'', tx_timestamp = 3\<rparr>] \<and>
      tickets s' ''T1'' = Some \<lparr>owner = ''Bob'', status = ''valid'', event = ''Rock Concert''\<rparr>)"
proof -
  have entry: "tickets demo_issued ''T1'' =
      Some \<lparr>owner = ''Alice'', status = ''valid'', event = ''Rock Concert''\<rparr>"
    by (simp add: toy_eval)
  have valid: "status \<lparr>owner = ''Alice'', status = ''valid'', event = ''Rock Concert''\<rparr> = ''valid''"
    by simp
  from transfer_effect [OF entry valid, of "''Bob''" 3] entry show ?thesis by auto
qed

text \<open>
  Claim C10. For a ticket whose registry status is \<open>valid\<close>, \<open>transfer_ticket\<close> to the
  ticket's current owner still returns \<open>True\<close> and still appends a \<open>transfer\<close> record to
  the pending pool: the code does not compare the new owner with the current one.
\<close>

theorem transfer_to_current_owner:
  assumes "tickets s tid = Some t" and "status t = ''valid''"
  shows "fst (transfer_ticket tid (owner t) now s) = True \<and>
         pending_transactions (snd (transfer_ticket tid (owner t) now s)) =
           pending_transactions s @
             [\<lparr>tx_type = ''transfer'', ticket_id = tid, tx_owner = owner t, tx_event = None,
               new_owner = Some (owner t), tx_timestamp = now\<rparr>]"
  using assms
  by (simp add: transfer_ticket_def add_transaction_def TicketTransaction_init_def Let_def)

theorem transfer_to_current_owner_witness:
  "tickets demo_issued ''T1'' =
     Some \<lparr>owner = ''Alice'', status = ''valid'', event = ''Rock Concert''\<rparr> \<and>
   fst (transfer_ticket ''T1'' ''Alice'' 3 demo_issued) = True \<and>
   length (pending_transactions (snd (transfer_ticket ''T1'' ''Alice'' 3 demo_issued))) =
     length (pending_transactions demo_issued) + 1"
proof -
  have entry: "tickets demo_issued ''T1'' =
      Some \<lparr>owner = ''Alice'', status = ''valid'', event = ''Rock Concert''\<rparr>"
    by (simp add: toy_eval)
  have valid: "status \<lparr>owner = ''Alice'', status = ''valid'', event = ''Rock Concert''\<rparr> = ''valid''"
    by simp
  from transfer_to_current_owner [OF entry valid, of 3] entry show ?thesis by simp
qed

text \<open>
  Claim C5. A ticket that is in the registry stays in the registry through every
  operation (issue, transfer, redeem, mine, verify), and once its status is \<open>redeemed\<close>
  it is \<open>redeemed\<close> in every later state. Identifiers come from \<^verbatim>\<open>uuid.uuid4()\<close>; the
  statement is for runs in which the generator does not return the ticket's own
  identifier again.
\<close>

theorem redeemed_is_terminal:
  assumes "run H cs s = Some (Inr s')" and "tickets s t = Some e"
    and "t \<notin> set (issued_ids cs)"
  shows "\<exists>e'. tickets s' t = Some e' \<and>
           (status e = ''redeemed'' \<longrightarrow> status e' = ''redeemed'')"
  using assms
proof (induction cs arbitrary: s e)
  case Nil
  then show ?case by simp
next
  case (Cons c cs)
  from Cons.prems(1) obtain s1 where st: "step H c s = Some (Inr s1)"
    and rest: "run H cs s1 = Some (Inr s')"
    by (auto split: option.splits sum.splits)
  from Cons.prems(3) have fresh: "t \<notin> set (issued_ids [c])" and fresh': "t \<notin> set (issued_ids cs)"
    by (cases c; simp)+
  from step_registry_entry [OF st Cons.prems(2) fresh] obtain e1 where
    e1: "tickets s1 t = Some e1" and keep: "status e = ''redeemed'' \<longrightarrow> e1 = e"
    by blast
  from Cons.IH [OF rest e1 fresh'] obtain e' where
    "tickets s' t = Some e'" "status e1 = ''redeemed'' \<longrightarrow> status e' = ''redeemed''"
    by blast
  with keep show ?case by auto
qed

theorem redeemed_is_terminal_witness:
  "\<exists>s'. run toy_digest [Mine 3, Transfer ''T1'' ''Bob'' 4, Redeem ''T1'' 5,
            Issue ''T2'' 6 ''Carol'' ''Opera'', Mine 7, Verify ''T1''] demo_redeemed = Some (Inr s') \<and>
     tickets demo_redeemed ''T1'' = Some \<lparr>owner = ''Alice'', status = ''redeemed'', event = ''Rock Concert''\<rparr> \<and>
     (\<exists>e'. tickets s' ''T1'' = Some e' \<and> status e' = ''redeemed'')"
proof -
  let ?cs = "[Mine 3, Transfer ''T1'' ''Bob'' 4, Redeem ''T1'' 5,
              Issue ''T2'' 6 ''Carol'' ''Opera'', Mine 7, Verify ''T1'']"
  have "case run toy_digest ?cs demo_redeemed of Some (Inr s') \<Rightarrow> True | _ \<Rightarrow> False"
    by (simp add: toy_eval)
  then obtain s' where r: "run toy_digest ?cs demo_redeemed = Some (Inr s')"
    by (auto split: option.splits sum.splits)
  have e: "tickets demo_redeemed ''T1'' =
      Some \<lparr>owner = ''Alice'', status = ''redeemed'', event = ''Rock Concert''\<rparr>"
    by (simp add: toy_eval)
  have fresh: "''T1'' \<notin> set (issued_ids ?cs)" by simp
  from redeemed_is_terminal [OF r e fresh] r e show ?thesis by auto
qed

section \<open>Mining\<close>

text \<open>
  Claim C7. With an empty pending pool, \<open>mine\<close> returns \<open>False\<close>, the signal that there is
  nothing to mine, and not a block, and returns the ledger as it was: chain, pending pool
  and registry are unchanged.
\<close>

theorem mine_nothing_pending:
  assumes "pending_transactions s = []"
  shows "mine H now s = Some (Inr (Ret_False, s))"
  using assms by (simp add: mine_def)

theorem mine_nothing_pending_witness:
  "pending_transactions demo_ledger = [] \<and>
   mine toy_digest 1 demo_ledger = Some (Inr (Ret_False, demo_ledger))"
proof -
  have empty: "pending_transactions demo_ledger = []"
    by (simp add: toy_eval)
  from empty mine_nothing_pending [OF empty, of toy_digest 1] show ?thesis by blast
qed

text \<open>
  Claim C9. \<open>proof_of_work\<close> sets the nonce to 0 and then adds 1 per attempt. When it
  returns, the block differs from the given one in the nonce only, the nonce is the least
  \<open>n \<ge> 0\<close> for which the hash of the block with nonce \<open>n\<close> starts with \<open>difficulty\<close>
  zeros, and the returned string is that hash.
\<close>

theorem proof_of_work_least_nonce:
  assumes "proof_of_work H b = Some (b', h)"
  shows "b' = b\<lparr>nonce := nonce b'\<rparr> \<and> 0 \<le> nonce b' \<and>
         startswith (compute_hash H b') (str_mul ''0'' difficulty) \<and>
         (\<forall>m. 0 \<le> m \<and> m < nonce b' \<longrightarrow>
              \<not> startswith (compute_hash H (b\<lparr>nonce := m\<rparr>)) (str_mul ''0'' difficulty)) \<and>
         h = compute_hash H b'"
  using proof_of_work_sound [OF assms] by blast

text \<open>The search starts at 0 whatever nonce the block comes with.\<close>

theorem proof_of_work_least_nonce_witness:
  "proof_of_work toy_digest ((Block_init 1 [] ''0'' 5)\<lparr>nonce := 7\<rparr>) =
     Some ((Block_init 1 [] ''0'' 5)\<lparr>nonce := 3\<rparr>,
           compute_hash toy_digest ((Block_init 1 [] ''0'' 5)\<lparr>nonce := 3\<rparr>)) \<and>
   startswith (compute_hash toy_digest ((Block_init 1 [] ''0'' 5)\<lparr>nonce := 3\<rparr>))
     (str_mul ''0'' difficulty) \<and>
   \<not> startswith (compute_hash toy_digest ((Block_init 1 [] ''0'' 5)\<lparr>nonce := 0\<rparr>))
       (str_mul ''0'' difficulty) \<and>
   \<not> startswith (compute_hash toy_digest ((Block_init 1 [] ''0'' 5)\<lparr>nonce := 1\<rparr>))
       (str_mul ''0'' difficulty) \<and>
   \<not> startswith (compute_hash toy_digest ((Block_init 1 [] ''0'' 5)\<lparr>nonce := 2\<rparr>))
       (str_mul ''0'' difficulty)"
proof -
  have r: "proof_of_work toy_digest ((Block_init 1 [] ''0'' 5)\<lparr>nonce := 7\<rparr>) =
     Some ((Block_init 1 [] ''0'' 5)\<lparr>nonce := 3\<rparr>,
           compute_hash toy_digest ((Block_init 1 [] ''0'' 5)\<lparr>nonce := 3\<rparr>))"
    by (simp add: toy_eval)
  from proof_of_work_least_nonce [OF r] r show ?thesis by simp
qed

text \<open>
  Claim C2. With a non-empty pending pool, \<open>mine\<close> returns the block it appends: the chain
  is longer by exactly one, the pending pool is empty afterwards, the block's index is the
  length of the chain before the call and its transactions are the pending pool in
  submission order. The ledger has its genesis block (\<open>chain s \<noteq> []\<close>, which \<open>chain_inv\<close>
  gives for every ledger built by the methods), and some nonce makes the hash of the new
  block meet the difficulty, so that the search ends.
\<close>

theorem mine_appends_block:
  assumes "pending_transactions s \<noteq> []" and "chain s \<noteq> []"
    and "0 \<le> n"
    and "startswith
           (compute_hash H
              ((Block_init (int (length (chain s))) (pending_transactions s)
                  (compute_hash H (last (chain s))) now)\<lparr>nonce := n\<rparr>))
           (str_mul ''0'' difficulty)"
  shows "\<exists>b s'. mine H now s = Some (Inr (Ret_Block b, s')) \<and>
           length (chain s') = length (chain s) + 1 \<and>
           chain s' = chain s @ [b] \<and>
           pending_transactions s' = [] \<and>
           tickets s' = tickets s \<and>
           index b = int (length (chain s)) \<and>
           transactions b = pending_transactions s"
proof -
  from proof_of_work_returns [OF assms(3,4)] obtain r where
    "proof_of_work H (Block_init (int (length (chain s))) (pending_transactions s)
        (compute_hash H (last (chain s))) now) = Some r" ..
  with assms(1,2) obtain r' s' where m: "mine H now s = Some (Inr (r', s'))"
    by (cases r) (simp add: mine_def Let_def)
  from mine_block [OF m assms(1)] m show ?thesis by auto
qed

theorem mine_appends_block_witness:
  "pending_transactions demo_issued \<noteq> [] \<and> chain demo_issued \<noteq> [] \<and>
   (\<exists>b s'. mine toy_digest 2 demo_issued = Some (Inr (Ret_Block b, s')) \<and>
      length (chain s') = 2 \<and> pending_transactions s' = [] \<and> index b = 1 \<and>
      transactions b = pending_transactions demo_issued)"
proof -
  have p: "pending_transactions demo_issued \<noteq> []" by (simp add: toy_eval)
  have c: "chain demo_issued \<noteq> []" by (simp add: toy_eval)
  have len: "length (chain demo_issued) = 1" by (simp add: toy_eval)
  have n: "(0::int) \<le> 3" by simp
  have g: "startswith
           (compute_hash toy_digest
              ((Block_init (int (length (chain demo_issued))) (pending_transactions demo_issued)
                  (compute_hash toy_digest (last (chain demo_issued))) 2)\<lparr>nonce := 3\<rparr>))
           (str_mul ''0'' difficulty)"
    by (simp add: toy_compute_hash_prefix)
  from mine_appends_block [OF p c n g] p c len show ?thesis by auto
qed

section \<open>The chain\<close>

text \<open>
  Claim C1. In every chain built by a sequence of ledger operations from a new ledger,
  each block's stored hash is \<open>compute_hash\<close> of the block's fields, block \<open>i\<close> has index
  \<open>i\<close>, and every block after the genesis block stores as \<open>previous_hash\<close> the
  \<open>compute_hash\<close> of the block right before it.
\<close>

theorem chain_hashes_linked:
  assumes "run H cs (TicketBlockchain_init H t0) = Some (Inr s)"
  shows "(\<forall>b \<in> set (chain s). hash b = Some (compute_hash H b)) \<and>
         (\<forall>i < length (chain s). index (chain s ! i) = int i) \<and>
         (\<forall>i. 0 < i \<and> i < length (chain s) \<longrightarrow>
            previous_hash (chain s ! i) = compute_hash H (chain s ! (i - 1)))"
proof -
  from reachable_chain_inv [OF assms] have inv: "chain_inv H (chain s)" .
  have "hash b = Some (compute_hash H b)" if "b \<in> set (chain s)" for b
  proof -
    from that obtain i where "i < length (chain s)" "chain s ! i = b"
      by (auto simp: in_set_conv_nth)
    with inv show ?thesis by (auto simp: chain_inv_def)
  qed
  with inv show ?thesis by (simp add: chain_inv_def)
qed

theorem chain_hashes_linked_witness:
  "\<exists>s. run toy_digest demo_flow (TicketBlockchain_init toy_digest 0) = Some (Inr s) \<and>
       length (chain s) = 4 \<and>
       (\<forall>b \<in> set (chain s). hash b = Some (compute_hash toy_digest b)) \<and>
       (\<forall>i. 0 < i \<and> i < length (chain s) \<longrightarrow>
          previous_hash (chain s ! i) = compute_hash toy_digest (chain s ! (i - 1)))"
proof -
  have "case run toy_digest demo_flow (TicketBlockchain_init toy_digest 0) of
          Some (Inr s) \<Rightarrow> length (chain s) = 4 | _ \<Rightarrow> False"
    by (simp add: toy_eval demo_flow_def)
  then obtain s where r: "run toy_digest demo_flow (TicketBlockchain_init toy_digest 0) = Some (Inr s)"
    and len: "length (chain s) = 4"
    by (auto split: option.splits sum.splits)
  from chain_hashes_linked [OF r] r len show ?thesis by blast
qed

text \<open>
  Claim C4. In every such chain, \<open>compute_hash\<close> of every block after the genesis block
  is a string of 64 hexadecimal characters whose first \<open>difficulty\<close> = 2 characters are
  \<open>0\<close>.
\<close>

theorem mined_blocks_meet_difficulty:
  assumes "run H cs (TicketBlockchain_init H t0) = Some (Inr s)"
    and "0 < i" and "i < length (chain s)"
  shows "length (compute_hash H (chain s ! i)) = 64 \<and>
         set (compute_hash H (chain s ! i)) \<subseteq> set ''0123456789abcdef'' \<and>
         nat difficulty = 2 \<and>
         (\<forall>k < nat difficulty. compute_hash H (chain s ! i) ! k = CHR ''0'')"
proof -
  let ?h = "compute_hash H (chain s ! i)"
  from reachable_chain_inv [OF assms(1)] assms(2,3)
  have "startswith ?h (str_mul ''0'' difficulty)"
    by (simp add: chain_inv_def)
  then have t: "take 2 ?h = ''00''"
    by (simp add: startswith_def zeros_difficulty numeral_2_eq_2)
  have "?h ! k = CHR ''0''" if "k < 2" for k
  proof -
    from that have "?h ! k = take 2 ?h ! k" by simp
    also from that have "\<dots> = CHR ''0''" unfolding t by (cases k) auto
    finally show ?thesis .
  qed
  then have zeros: "\<forall>k < nat difficulty. ?h ! k = CHR ''0''"
    by (simp add: difficulty_def)
  have two: "nat difficulty = 2" by (simp add: difficulty_def)
  have len: "length ?h = 64"
    unfolding compute_hash_def by (rule length_hexdigest)
  have hex: "set ?h \<subseteq> set ''0123456789abcdef''"
    unfolding compute_hash_def by (rule set_hexdigest)
  from len hex two zeros show ?thesis by blast
qed

theorem mined_blocks_meet_difficulty_witness:
  "\<exists>s. run toy_digest demo_flow (TicketBlockchain_init toy_digest 0) = Some (Inr s) \<and>
       (0::nat) < 3 \<and> 3 < length (chain s) \<and>
       (\<forall>k < nat difficulty. compute_hash toy_digest (chain s ! 3) ! k = CHR ''0'')"
proof -
  have "case run toy_digest demo_flow (TicketBlockchain_init toy_digest 0) of
          Some (Inr s) \<Rightarrow> 3 < length (chain s) | _ \<Rightarrow> False"
    by (simp add: toy_eval demo_flow_def)
  then obtain s where r: "run toy_digest demo_flow (TicketBlockchain_init toy_digest 0) = Some (Inr s)"
    and len: "3 < length (chain s)"
    by (auto split: option.splits sum.splits)
  have pos: "(0::nat) < 3" by simp
  from mined_blocks_meet_difficulty [OF r pos len] r len pos show ?thesis by blast
qed

end
